theory Spec2Isabelle
  imports Complex_Main "HOL-Library.Multiset"
begin

section \<open>Data model\<close>

text \<open>
  The JavaScript objects of the remediation engine, as records. A field that an object
  may lack (\<^verbatim>\<open>undefined\<close>) is an \<open>option\<close>. Status values, job types and WCAG
  criteria are the strings of the source. A job id \<^verbatim>\<open>job-<index>\<close> is represented
  by its index. Source names that are taken by HOL or by another record are prefixed:
  \<^verbatim>\<open>job.id\<close> is \<open>jid\<close>, \<^verbatim>\<open>job.type\<close> is \<open>jtype\<close>, \<^verbatim>\<open>job.status\<close> is \<open>jstatus\<close>; the
  fields \<^verbatim>\<open>jobId\<close>, \<^verbatim>\<open>type\<close>, \<^verbatim>\<open>status\<close> of a job result are \<open>resultJobId\<close>, \<open>rtype\<close>,
  \<open>rstatus\<close>.
\<close>

type_synonym job_id = nat

record issue =
  itype :: "string option"
  criterion :: "string option"

text \<open>
  A remediation (patch). \<^verbatim>\<open>parseRemediationResponse\<close> builds the successful ones with
  every field below present except \<open>jobId\<close>, \<open>jobType\<close> (added by
  \<^verbatim>\<open>resolveConflicts\<close>) and \<open>mergedFrom\<close> (added by \<^verbatim>\<open>mergeRemediations\<close>); the
  failed placeholders have no \<open>lineNumber\<close> and no \<open>confidence\<close>. Confidence values
  are compared and averaged as rationals.
\<close>

record remediation =
  status :: string
  lineNumber :: "int option"
  beforeCode :: "string option"
  afterCode :: string
  confidence :: "rat option"
  explanation :: string
  wcagCriterion :: string
  jobId :: "job_id option"
  jobType :: "string option"
  mergedFrom :: "string list"


record job =
  jid :: job_id
  jtype :: string
  issues :: "issue list"
  dependencies :: "string list"
  jstatus :: string
  attempts :: nat
  maxAttempts :: nat

record job_result =
  resultJobId :: job_id
  rtype :: "string option"
  rstatus :: string
  error :: "string option"
  remediations :: "remediation list"

section \<open>Library functions of the host language\<close>

text \<open>\<^verbatim>\<open>String.prototype.includes\<close> (the name is an Isabelle keyword).\<close>

fun startsWith :: "string \<Rightarrow> string \<Rightarrow> bool" where
  "startsWith s [] = True"
| "startsWith [] (c # cs) = False"
| "startsWith (x # xs) (c # cs) = (x = c \<and> startsWith xs cs)"

fun strIncludes :: "string \<Rightarrow> string \<Rightarrow> bool" where
  "strIncludes [] sub = (sub = [])"
| "strIncludes (x # xs) sub = (startsWith (x # xs) sub \<or> strIncludes xs sub)"

text \<open>\<^verbatim>\<open>Array.prototype.indexOf\<close>: the first position of the element, or \<open>-1\<close>.\<close>

fun indexOf :: "'a list \<Rightarrow> 'a \<Rightarrow> int" where
  "indexOf [] x = - 1"
| "indexOf (y # ys) x =
     (if y = x then 0 else (let i = indexOf ys x in if i = - 1 then - 1 else i + 1))"

text \<open>
  \<^verbatim>\<open>Array.prototype.sort\<close> with a comparator: a stable sort. \<open>gt a b\<close> says that the
  comparator is positive at \<open>(a, b)\<close>, that is, \<open>a\<close> goes after \<open>b\<close>.
\<close>

fun insertBy :: "('a \<Rightarrow> 'a \<Rightarrow> bool) \<Rightarrow> 'a \<Rightarrow> 'a list \<Rightarrow> 'a list" where
  "insertBy gt x [] = [x]"
| "insertBy gt x (y # ys) = (if gt x y then y # insertBy gt x ys else x # y # ys)"

definition sortBy :: "('a \<Rightarrow> 'a \<Rightarrow> bool) \<Rightarrow> 'a list \<Rightarrow> 'a list" where
  "sortBy gt xs = foldr (insertBy gt) xs []"

text \<open>\<^verbatim>\<open>sorted[0]\<close>: the first element, \<^verbatim>\<open>undefined\<close> on the empty array.\<close>

definition first :: "'a list \<Rightarrow> 'a option" where
  "first xs = (case xs of [] \<Rightarrow> None | x # _ \<Rightarrow> Some x)"

text \<open>Decimal rendering of a number inside a template string.\<close>

fun showNat :: "nat \<Rightarrow> string" where
  "showNat n =
     (if n < 10 then [char_of (48 + n)]
      else showNat (n div 10) @ [char_of (48 + n mod 10)])"

declare showNat.simps [simp del]

text \<open>\<^verbatim>\<open>Array.prototype.join\<close> on strings.\<close>

fun join :: "string \<Rightarrow> string list \<Rightarrow> string" where
  "join sep [] = []"
| "join sep [x] = x"
| "join sep (x # y # ys) = x @ sep @ join sep (y # ys)"

text \<open>
  \<^verbatim>\<open>String.prototype.split('\n')\<close>: the pieces between line feeds; always at least
  one piece.
\<close>

fun split :: "string \<Rightarrow> string list" where
  "split [] = [[]]"
| "split (c # cs) =
     (if c = CHR 0x0A then [] # split cs
      else (case split cs of [] \<Rightarrow> [[c]] | l # ls \<Rightarrow> (c # l) # ls))"

section \<open>Conflict resolution strategies\<close>

definition priorityOrder :: "string list" where
  "priorityOrder =
     [''3.1.1'', ''2.4.2'', ''1.3.1'', ''1.1.1'', ''3.3.2'', ''2.1.1'', ''2.4.4'', ''1.4.3'',
      ''4.1.2'']"

text \<open>
  \<^verbatim>\<open>priorityOrder.indexOf(a.wcagCriterion) || 999\<close>: the operator \<^verbatim>\<open>||\<close> takes its
  right operand when the left one is falsy, and among the integers only \<open>0\<close> is.
\<close>

definition priorityIndex :: "remediation \<Rightarrow> int" where
  "priorityIndex a = (let i = indexOf priorityOrder (wcagCriterion a) in if i = 0 then 999 else i)"

definition resolveByCriteriaPriority :: "remediation list \<Rightarrow> remediation option" where
  "resolveByCriteriaPriority rems =
     first (sortBy (\<lambda>a b. priorityIndex a - priorityIndex b > 0) rems)"

text \<open>\<^verbatim>\<open>r.confidence || 0.5\<close>: an absent confidence and the confidence \<open>0\<close> both give \<open>0.5\<close>.\<close>

definition conf :: "remediation \<Rightarrow> rat" where
  "conf r = (case confidence r of None \<Rightarrow> 1 / 2 | Some c \<Rightarrow> if c = 0 then 1 / 2 else c)"

definition resolveByConfidence :: "remediation list \<Rightarrow> remediation option" where
  "resolveByConfidence rems = first (sortBy (\<lambda>a b. conf b - conf a > 0) rems)"

definition hasAttributeConflict :: "string option \<Rightarrow> string \<Rightarrow> remediation list \<Rightarrow> bool" where
  "hasAttributeConflict currentLine newLine previousChanges = False"

definition mergeAttributes :: "string option \<Rightarrow> string \<Rightarrow> string" where
  "mergeAttributes currentLine newLine = newLine"

text \<open>
  \<^verbatim>\<open>attemptMerge\<close> returns \<^verbatim>\<open>{success: true, result}\<close> (here \<open>Some result\<close>) or
  \<^verbatim>\<open>{success: false, reason}\<close> (here \<open>None\<close>).
\<close>

definition attemptMerge :: "string option \<Rightarrow> remediation \<Rightarrow> remediation list \<Rightarrow> string option" where
  "attemptMerge currentLine r previousChanges =
     (if strIncludes (afterCode r) ''=''
         \<and> \<not> hasAttributeConflict currentLine (afterCode r) previousChanges
      then Some (mergeAttributes currentLine (afterCode r))
      else if list_all (\<lambda>c. strIncludes (afterCode c) ''='') previousChanges
      then Some (afterCode r)
      else None)"

text \<open>The body of the \<^verbatim>\<open>for\<close> loop of \<^verbatim>\<open>mergeRemediations\<close>, on the pair
  \<^verbatim>\<open>(mergedLine, appliedChanges)\<close>.\<close>

definition mergeStep :: "remediation \<Rightarrow> string option \<times> remediation list \<Rightarrow> string option \<times> remediation list" where
  "mergeStep r st =
     (case attemptMerge (fst st) r (snd st) of
        Some result \<Rightarrow> (Some result, snd st @ [r])
      | None \<Rightarrow> st)"

text \<open>
  \<^verbatim>\<open>mergeRemediations\<close>. The sort is in place, so \<^verbatim>\<open>remediations[0]\<close> is the first
  element of the sorted array. The merged line is a string as soon as one change is
  applied. The averaged confidence is the exact quotient, where the code has the
  floating-point one; nothing below reads it.
\<close>

definition mergeRemediations :: "remediation list \<Rightarrow> string option \<Rightarrow> remediation option" where
  "mergeRemediations rems origLine =
     (let sortedRemediations = sortBy (\<lambda>a b. conf b - conf a > 0) rems;
          (mergedLine, appliedChanges) = fold mergeStep sortedRemediations (origLine, [])
      in case (appliedChanges, sortedRemediations, mergedLine) of
           (_ # _, base # _, Some line) \<Rightarrow>
             Some (base\<lparr>
               beforeCode := origLine,
               afterCode := line,
               confidence := Some (sum_list (map conf appliedChanges) / of_nat (length appliedChanges)),
               explanation := ''Merged '' @ showNat (length appliedChanges) @ '' changes: ''
                                @ join ''; '' (map explanation appliedChanges),
               mergedFrom := map wcagCriterion appliedChanges,
               status := ''merged''\<rparr>)
         | _ \<Rightarrow> resolveByConfidence sortedRemediations)"


section \<open>Conflict detection and resolution\<close>








section \<open>Applying remediations to the source\<close>

text \<open>
  \<^verbatim>\<open>applyRemediations\<close> of the agent. The comparator \<^verbatim>\<open>b.lineNumber - a.lineNumber\<close>
  is \<^verbatim>\<open>NaN\<close>, hence not positive, when a line number is missing; the comparisons of
  the range check are false then, too. With such a patch among the successful ones the
  comparator is not a consistent order, and the language leaves the result of
  \<^verbatim>\<open>Array.prototype.sort\<close> to the engine: the order \<open>sortBy lineGt\<close> gives is then one
  arrangement of the patches and need not be the engine's, so that the text written
  to a line that several patches target and the order of \<open>errors\<close> may differ. What
  is proved of \<open>applyRemediations\<close> below holds for every arrangement: it uses of the
  sort only that it keeps the set of patches.
\<close>

record application =
  modifiedHtml :: string
  appliedCount :: nat
  errors :: "int option list"
  totalRemediations :: nat

definition lineGt :: "remediation \<Rightarrow> remediation \<Rightarrow> bool" where
  "lineGt a b =
     (case (lineNumber a, lineNumber b) of
        (Some x, Some y) \<Rightarrow> y - x > 0
      | _ \<Rightarrow> False)"

definition inRange :: "string list \<Rightarrow> remediation \<Rightarrow> bool" where
  "inRange lines r =
     (case lineNumber r of
        None \<Rightarrow> False
      | Some n \<Rightarrow> n - 1 \<ge> 0 \<and> n - 1 < int (length lines))"

text \<open>The body of the \<^verbatim>\<open>forEach\<close>, on \<^verbatim>\<open>(lines, appliedCount, errors)\<close>; an error
  message is represented by the line number it quotes.\<close>

definition applyOne :: "remediation \<Rightarrow> string list \<times> nat \<times> int option list \<Rightarrow> string list \<times> nat \<times> int option list" where
  "applyOne r st =
     (case st of (lines, cnt, errs) \<Rightarrow>
        (case lineNumber r of
           Some n \<Rightarrow>
             if n - 1 \<ge> 0 \<and> n - 1 < int (length lines)
             then (lines[nat (n - 1) := afterCode r], cnt + 1, errs)
             else (lines, cnt, errs @ [Some n])
         | None \<Rightarrow> (lines, cnt, errs @ [None])))"

definition applyRemediations :: "string \<Rightarrow> remediation list \<Rightarrow> application" where
  "applyRemediations sourceHtml rems =
     (let lines = split sourceHtml;
          sortedRemediations = sortBy lineGt (filter (\<lambda>r. status r = ''success'') rems);
          (lines', cnt, errs) = fold applyOne sortedRemediations (lines, 0, [])
      in \<lparr>modifiedHtml = join [CHR 0x0A] lines',
          appliedCount = cnt,
          errors = errs,
          totalRemediations = length sortedRemediations\<rparr>)"

section \<open>The agent: rate limiter and per-type processing\<close>

text \<open>\<^verbatim>\<open>Map.prototype.set\<close> on a map kept as an association list in insertion order.\<close>

fun mapSet :: "'k \<Rightarrow> 'v \<Rightarrow> ('k \<times> 'v) list \<Rightarrow> ('k \<times> 'v) list" where
  "mapSet k v [] = [(k, v)]"
| "mapSet k v ((k', v') # m) = (if k' = k then (k, v) # m else (k', v') # mapSet k v m)"

text \<open>
  \<^verbatim>\<open>createRateLimiter().canMakeRequest\<close>, with \<^verbatim>\<open>Date.now()\<close> as the argument
  \<open>now\<close> and the closure's \<^verbatim>\<open>requests\<close> map as state. It returns the answer and the
  new map.
\<close>

definition windowMs :: int where
  "windowMs = 60000"

definition maxRequests :: nat where
  "maxRequests = 60"

definition canMakeRequest :: "int \<Rightarrow> (int \<times> nat) list \<Rightarrow> bool \<times> (int \<times> nat) list" where
  "canMakeRequest now requests =
     (let windowStart = now - windowMs;
          requests1 = filter (\<lambda>(timestamp, count). \<not> timestamp < windowStart) requests;
          currentRequests = sum_list (map snd requests1)
      in if currentRequests \<ge> maxRequests then (False, requests1)
         else (let currentMinute = (now div windowMs) * windowMs
               in (True, mapSet currentMinute
                           ((case map_of requests1 currentMinute of None \<Rightarrow> 0 | Some c \<Rightarrow> c) + 1)
                           requests1)))"

text \<open>
  What \<^verbatim>\<open>processIssueType\<close> throws after its loop: the error built from
  \<^verbatim>\<open>lastError.message\<close>, or the \<^verbatim>\<open>TypeError\<close> of reading \<^verbatim>\<open>message\<close> from an
  undefined \<^verbatim>\<open>lastError\<close>.
\<close>

datatype process_error = ProcessFailed nat string | TypeError

text \<open>
  The loop of \<^verbatim>\<open>processIssueType\<close>. \<open>clock a\<close> is \<^verbatim>\<open>Date.now()\<close> when attempt \<open>a\<close>
  asks the limiter; \<open>worker a\<close> is what building the prompt, calling the completion
  service and parsing its answer give at attempt \<open>a\<close>: the remediations, or the message
  of the error thrown. The \<^verbatim>\<open>continue\<close> after a denial goes to the loop's update
  expression \<^verbatim>\<open>attempt++\<close>.
\<close>

function processLoop ::
  "nat \<Rightarrow> (nat \<Rightarrow> int) \<Rightarrow> (nat \<Rightarrow> string + remediation list) \<Rightarrow> nat \<Rightarrow> string option
     \<Rightarrow> (int \<times> nat) list \<Rightarrow> (process_error + remediation list) \<times> (int \<times> nat) list" where
  "processLoop maxRetries clock worker attempt lastError requests =
     (if attempt \<le> maxRetries then
        (case canMakeRequest (clock attempt) requests of
           (False, requests') \<Rightarrow>
             processLoop maxRetries clock worker (attempt + 1) lastError requests'
         | (True, requests') \<Rightarrow>
             (case worker attempt of
                Inr rems \<Rightarrow> (Inr rems, requests')
              | Inl msg \<Rightarrow>
                  processLoop maxRetries clock worker (attempt + 1) (Some msg) requests'))
      else (case lastError of
              None \<Rightarrow> (Inl TypeError, requests)
            | Some msg \<Rightarrow> (Inl (ProcessFailed maxRetries msg), requests)))"
  by pat_completeness auto
termination
  by (relation "measure (\<lambda>(maxRetries, clock, worker, attempt, lastError, requests).
        Suc maxRetries - attempt)") auto

declare processLoop.simps [simp del]

definition processIssueType ::
  "nat \<Rightarrow> (nat \<Rightarrow> int) \<Rightarrow> (nat \<Rightarrow> string + remediation list) \<Rightarrow> (int \<times> nat) list
     \<Rightarrow> (process_error + remediation list) \<times> (int \<times> nat) list" where
  "processIssueType maxRetries clock worker requests =
     processLoop maxRetries clock worker 1 None requests"

text \<open>
  The handling of one settled promise in \<^verbatim>\<open>remediateIssues\<close>: the remediations of a
  fulfilled one, and for a rejected one a failed placeholder per issue of the group.
  Of the placeholder's fields only \<^verbatim>\<open>status\<close> is read later.
\<close>

definition failedPlaceholder :: "string \<Rightarrow> issue \<Rightarrow> remediation" where
  "failedPlaceholder type issue =
     \<lparr>status = ''failed'', lineNumber = None, beforeCode = None, afterCode = [],
      confidence = None, explanation = [], wcagCriterion = [], jobId = None, jobType = None,
      mergedFrom = []\<rparr>"

definition settleIssueType :: "string \<Rightarrow> issue list \<Rightarrow> process_error + remediation list \<Rightarrow> remediation list" where
  "settleIssueType type typeIssues settled =
     (case settled of
        Inr value \<Rightarrow> value
      | Inl reason \<Rightarrow> map (failedPlaceholder type) typeIssues)"

section \<open>The manager: jobs, dependency order\<close>

text \<open>\<^verbatim>\<open>config.x || d\<close> on a number: the default for a missing value and for \<open>0\<close>. The
  two limits are natural numbers, as the server validates them (\<^verbatim>\<open>isInt\<close>); the
  constructor itself accepts any number.\<close>

definition orDefault :: "nat option \<Rightarrow> nat \<Rightarrow> nat" where
  "orDefault v d = (case v of None \<Rightarrow> d | Some n \<Rightarrow> if n = 0 then d else n)"

record config =
  maxConcurrency :: nat
  retryAttempts :: nat

definition mkConfig :: "nat option \<Rightarrow> nat option \<Rightarrow> config" where
  "mkConfig mc ra = \<lparr>maxConcurrency = orDefault mc 3, retryAttempts = orDefault ra 2\<rparr>"

text \<open>
  An element of \<^verbatim>\<open>processedIssues\<close>: a group (with \<^verbatim>\<open>issues\<close>) or a single prepared
  issue (with \<^verbatim>\<open>dependencies\<close>). \<^verbatim>\<open>priority\<close>, \<^verbatim>\<open>estimatedComplexity\<close>,
  \<^verbatim>\<open>sourceHtml\<close> and \<^verbatim>\<open>createdAt\<close> are copied into the job and never read by the
  scheduler; they are left out.
\<close>

record issueGroup =
  gtype :: "string option"
  gcriterion :: "string option"
  gissues :: "issue list option"
  gdependencies :: "string list option"

text \<open>\<^verbatim>\<open>v || d\<close> on a string: the default for a missing value and for the empty string.\<close>

definition orElse :: "string option \<Rightarrow> string \<Rightarrow> string" where
  "orElse v d = (case v of None \<Rightarrow> d | Some x \<Rightarrow> if x = [] then d else x)"

definition createJob :: "nat \<Rightarrow> nat \<Rightarrow> issueGroup \<Rightarrow> job" where
  "createJob retries index g =
     \<lparr>jid = index,
      jtype = orElse (gtype g) (orElse (gcriterion g) ''unknown''),
      issues = (case gissues g of
                  Some is \<Rightarrow> is
                | None \<Rightarrow> [\<lparr>itype = gtype g, criterion = gcriterion g\<rparr>]),
      dependencies = (case gdependencies g of Some ds \<Rightarrow> ds | None \<Rightarrow> []),
      jstatus = ''pending'',
      attempts = 0,
      maxAttempts = retries + 1\<rparr>"

definition createJobs :: "config \<Rightarrow> issueGroup list \<Rightarrow> job list" where
  "createJobs cfg processedIssues =
     map (\<lambda>(index, g). createJob (retryAttempts cfg) index g) (enumerate 0 processedIssues)"

text \<open>
  \<^verbatim>\<open>resolveDependencies\<close>. \<open>visit\<close> is the closure of the source and \<open>visitDeps\<close> the
  \<^verbatim>\<open>forEach\<close> over \<^verbatim>\<open>job.dependencies\<close> in it. The state that is threaded is the pair
  \<^verbatim>\<open>(visited, sorted)\<close>. The set \<^verbatim>\<open>visiting\<close> is an argument: \<open>visit\<close> adds the job's id
  before the loop over the dependencies and deletes it after the loop, and it does so
  only when the id was not in the set, so on return the set is what it was at the call.
\<close>

function visit :: "job list \<Rightarrow> job_id set \<Rightarrow> job \<Rightarrow> job_id set \<times> job list \<Rightarrow> job_id set \<times> job list"
  and visitDeps :: "job list \<Rightarrow> job_id set \<Rightarrow> string list \<Rightarrow> job_id set \<times> job list \<Rightarrow> job_id set \<times> job list" where
  "visit jobs visiting job st =
     (if jid job \<in> visiting then st
      else if jid job \<in> fst st then st
      else (let st' = visitDeps jobs (insert (jid job) visiting) (dependencies job) st
            in (insert (jid job) (fst st'), snd st' @ [job])))"
| "visitDeps jobs visiting [] st = st"
| "visitDeps jobs visiting (depType # rest) st =
     (case find (\<lambda>j. jtype j = depType) jobs of
        Some depJob \<Rightarrow> visitDeps jobs visiting rest (visit jobs visiting depJob st)
      | None \<Rightarrow> visitDeps jobs visiting rest st)"
  by pat_completeness auto
termination
proof (relation "(\<lambda>x. case x of
          Inl (jobs, visiting, job, st) \<Rightarrow>
            card (jid ` set jobs - visiting) + (if jid job \<in> jid ` set jobs then 0 else 1)
        | Inr (jobs, visiting, deps, st) \<Rightarrow> card (jid ` set jobs - visiting))
      <*mlex*> (\<lambda>x. case x of Inl _ \<Rightarrow> 0 | Inr _ \<Rightarrow> 1)
      <*mlex*> (\<lambda>x. case x of Inl _ \<Rightarrow> 0 | Inr (jobs, visiting, deps, st) \<Rightarrow> length deps)
      <*mlex*> {}", goal_cases)
  case 1
  then show ?case by (simp add: wf_mlex)
next
  case (2 jobs visiting job st)
  have fin: "finite (jid ` set jobs - visiting)" by simp
  show ?case
  proof (cases "jid job \<in> jid ` set jobs")
    case True
    with 2 have "jid job \<in> jid ` set jobs - visiting" by simp
    then have "card (jid ` set jobs - insert (jid job) visiting) < card (jid ` set jobs - visiting)"
      by (metis Diff_insert card_Diff1_less fin)
    with True show ?thesis by (simp add: mlex_iff)
  next
    case False
    then have "jid ` set jobs - insert (jid job) visiting = jid ` set jobs - visiting" by auto
    with False show ?thesis by (simp add: mlex_iff)
  qed
next
  case 3
  then show ?case
    by (simp add: mlex_iff)
next
  case (4 jobs visiting depType rest st depJob)
  then have "depJob \<in> set jobs"
    by (metis find_Some_iff nth_mem)
  then show ?case
    by (simp add: mlex_iff)
next
  case 5
  then show ?case
    by (simp add: mlex_iff)
qed

declare visit.simps [simp del]

definition resolveDependencies :: "job list \<Rightarrow> job list" where
  "resolveDependencies jobs =
     snd (fold (\<lambda>job st. if jid job \<notin> fst st then visit jobs {} job st else st) jobs ({}, []))"

section \<open>The manager: the scheduler\<close>

definition dependenciesMet :: "job \<Rightarrow> job_result list \<Rightarrow> bool" where
  "dependenciesMet job completedResults =
     (if dependencies job = [] then True
      else list_all (\<lambda>depType.
             list_ex (\<lambda>result. rstatus result = ''success'' \<and> rtype result = Some depType)
               completedResults)
           (dependencies job))"

text \<open>
  \<^verbatim>\<open>executeJobs\<close> is asynchronous: it is modelled as a machine whose state holds the
  local variables of the function and a control point, and whose step is one pass
  through a loop test. \<open>jobs\<close> is the array of job objects; the queue and the promises
  hold jobs of it, identified by their ids (the ids of \<open>createJobs\<close> are pairwise
  distinct), and an assignment to a field of a job is written to the array.
  \<open>processing\<close> is the \<^verbatim>\<open>Map\<close> from job id to the promise of \<^verbatim>\<open>executeJob\<close>, a promise
  being represented by the job it runs.

  What the awaited \<^verbatim>\<open>Promise.race\<close> yields is not determined by the program: the
  schedule gives, for the race entered with \<^verbatim>\<open>completedCount\<close> equal to \<open>c\<close>, which
  in-flight promise settles first and how (the worker's remediations within the
  timeout, or the message of the error).

  \<^verbatim>\<open>executeJob\<close> races the call \<^verbatim>\<open>agent.remediateIssues(...)\<close> against
  \<^verbatim>\<open>createTimeoutPromise\<close>, whose timer rejects with the message
  \<^verbatim>\<open>Job timed out after <timeout>ms\<close>. A rejection with that message comes from the
  timer: the worker call has lost the race and nothing cancels it. \<open>workerCalls\<close> is not
  a variable of the program: it lists, by job id, the calls of
  \<^verbatim>\<open>agent.remediateIssues\<close> that \<^verbatim>\<open>executeJob\<close> has started and that have not returned
  to it. A call enters the list at the dispatch and leaves it when its promise is
  fulfilled or is rejected by the call itself. A call that lost against the timer stays
  in the list: no step of the program waits for it, so the list is exact up to the next
  dispatch (which follows the rejection without any suspension) and an upper bound
  afterwards.
\<close>

datatype outcome = Resolved "remediation list" | Rejected string

definition timedOut :: "string \<Rightarrow> bool" where
  "timedOut msg = startsWith msg ''Job timed out''"

type_synonym schedule = "nat \<Rightarrow> nat \<times> outcome"

datatype control = AtOuter | AtInner | AtRace | Returned

record exec_state =
  pc :: control
  jobs :: "job list"
  jobQueue :: "job list"
  processing :: "(job_id \<times> job) list"
  results :: "job_result list"
  completedCount :: nat
  completedJobs :: nat
  failedJobs :: nat
  workerCalls :: "job_id list"

fun updateJob :: "job_id \<Rightarrow> (job \<Rightarrow> job) \<Rightarrow> job list \<Rightarrow> job list" where
  "updateJob i f [] = []"
| "updateJob i f (j # js) = (if jid j = i then f j # js else j # updateJob i f js)"

text \<open>One pass through the body of the inner \<^verbatim>\<open>while\<close>: \<^verbatim>\<open>jobQueue.shift()\<close>, then
  \<^verbatim>\<open>executeJob\<close> (which sets the status) and \<^verbatim>\<open>processing.set\<close>, or
  \<^verbatim>\<open>jobQueue.push\<close> and the sleep.\<close>

definition dispatch :: "exec_state \<Rightarrow> exec_state" where
  "dispatch s =
     (case jobQueue s of
        [] \<Rightarrow> s
      | job # queue \<Rightarrow>
          if dependenciesMet job (results s)
          then (let running = job\<lparr>jstatus := ''processing''\<rparr>
                in s\<lparr>jobQueue := queue,
                     jobs := updateJob (jid job) (\<lambda>j. j\<lparr>jstatus := ''processing''\<rparr>) (jobs s),
                     processing := mapSet (jid job) running (processing s),
                     workerCalls := workerCalls s @ [jid job]\<rparr>)
          else s\<lparr>jobQueue := queue @ [job]\<rparr>)"

definition failedResult :: "job_id \<Rightarrow> string \<Rightarrow> job_result" where
  "failedResult i msg =
     \<lparr>resultJobId = i, rtype = None, rstatus = ''failed'', error = Some msg, remediations = []\<rparr>"

definition successResult :: "job \<Rightarrow> remediation list \<Rightarrow> job_result" where
  "successResult job rems =
     \<lparr>resultJobId = jid job, rtype = Some (jtype job), rstatus = ''success'', error = None,
      remediations = rems\<rparr>"

text \<open>The code after the race: the settled promise is \<open>(completedId, running)\<close>.\<close>

definition complete :: "nat \<times> outcome \<Rightarrow> exec_state \<Rightarrow> exec_state" where
  "complete ev s =
     (case ev of (i, out) \<Rightarrow>
      case processing s ! (i mod length (processing s)) of (completedId, running) \<Rightarrow>
      let s1 = s\<lparr>processing := filter (\<lambda>e. fst e \<noteq> completedId) (processing s),
                 completedCount := completedCount s + 1,
                 workerCalls :=
                   (case out of
                      Resolved rems \<Rightarrow> remove1 completedId (workerCalls s)
                    | Rejected msg \<Rightarrow>
                        if timedOut msg then workerCalls s
                        else remove1 completedId (workerCalls s))\<rparr>
      in case out of
           Rejected msg \<Rightarrow>
             (let s2 = s1\<lparr>failedJobs := failedJobs s1 + 1\<rparr>
              in case find (\<lambda>j. jid j = completedId) (jobs s2) of
                   Some job \<Rightarrow>
                     if attempts job < maxAttempts job
                     then (let job' = job\<lparr>attempts := attempts job + 1, jstatus := ''retrying''\<rparr>
                           in s2\<lparr>jobs := updateJob completedId (\<lambda>j. job') (jobs s2),
                                 jobQueue := job' # jobQueue s2\<rparr>)
                     else s2\<lparr>results := results s2 @ [failedResult completedId msg]\<rparr>
                 | None \<Rightarrow> s2\<lparr>results := results s2 @ [failedResult completedId msg]\<rparr>)
         | Resolved rems \<Rightarrow>
             s1\<lparr>completedJobs := completedJobs s1 + 1,
                results := results s1 @ [successResult running rems]\<rparr>)"

definition step :: "schedule \<Rightarrow> nat \<Rightarrow> exec_state \<Rightarrow> exec_state" where
  "step sched maxConc s =
     (case pc s of
        AtOuter \<Rightarrow>
          if jobQueue s \<noteq> [] \<or> processing s \<noteq> [] then s\<lparr>pc := AtInner\<rparr> else s\<lparr>pc := Returned\<rparr>
      | AtInner \<Rightarrow>
          if length (processing s) < maxConc \<and> jobQueue s \<noteq> [] then dispatch s
          else s\<lparr>pc := AtRace\<rparr>
      | AtRace \<Rightarrow>
          if processing s \<noteq> [] then (complete (sched (completedCount s)) s)\<lparr>pc := AtOuter\<rparr>
          else s\<lparr>pc := AtOuter\<rparr>
      | Returned \<Rightarrow> s)"

definition initState :: "job list \<Rightarrow> exec_state" where
  "initState js =
     \<lparr>pc = AtOuter, jobs = js, jobQueue = resolveDependencies js, processing = [],
      results = [], completedCount = 0, completedJobs = 0, failedJobs = 0, workerCalls = []\<rparr>"

text \<open>The state after \<open>n\<close> steps, and the run with fuel: \<open>None\<close> when the fuel is used
  up before \<^verbatim>\<open>executeJobs\<close> returns. \<open>executeJobs\<close> gives the state at the
  \<^verbatim>\<open>return\<close>: its \<open>results\<close> is the array returned, and its \<open>jobs\<close> holds the job
  objects as the call leaves them. The message of a rejection stands for the text
  \<^verbatim>\<open>Job execution failed after <n>ms: <message>\<close> that \<^verbatim>\<open>executeJob\<close> throws.\<close>

fun stepsFrom :: "schedule \<Rightarrow> nat \<Rightarrow> nat \<Rightarrow> exec_state \<Rightarrow> exec_state" where
  "stepsFrom sched maxConc 0 s = s"
| "stepsFrom sched maxConc (Suc n) s = stepsFrom sched maxConc n (step sched maxConc s)"

definition stateAfter :: "schedule \<Rightarrow> nat \<Rightarrow> job list \<Rightarrow> nat \<Rightarrow> exec_state" where
  "stateAfter sched maxConc js n = stepsFrom sched maxConc n (initState js)"

fun run :: "nat \<Rightarrow> schedule \<Rightarrow> nat \<Rightarrow> exec_state \<Rightarrow> exec_state option" where
  "run 0 sched maxConc s = None"
| "run (Suc fuel) sched maxConc s =
     (if pc s = Returned then Some s else run fuel sched maxConc (step sched maxConc s))"

definition executeJobs :: "nat \<Rightarrow> schedule \<Rightarrow> config \<Rightarrow> job list \<Rightarrow> exec_state option" where
  "executeJobs fuel sched cfg js = run fuel sched (maxConcurrency cfg) (initState js)"

section \<open>Notions for stating the dependency order\<close>

text \<open>
  The dependency graph of the claim: an edge from a job to every job of the list whose
  type it lists in \<^verbatim>\<open>dependencies\<close>. \<open>findEdges\<close> has the edges that
  \<^verbatim>\<open>resolveDependencies\<close> follows: from a job to the job \<^verbatim>\<open>jobs.find\<close> returns for a
  listed type, the first of that type. \<open>appearsBefore d j xs\<close> says that \<open>j\<close> occurs in
  \<open>xs\<close> and \<open>d\<close> occurs before the first occurrence of \<open>j\<close>. \<open>sortInv\<close> is the invariant
  of the pair \<^verbatim>\<open>(visited, sorted)\<close> and \<open>visitPost\<close> relates the pair before and after
  a call.
\<close>

definition dependencyEdges :: "job list \<Rightarrow> (job \<times> job) set" where
  "dependencyEdges js = {(a, b). a \<in> set js \<and> b \<in> set js \<and> jtype b \<in> set (dependencies a)}"

definition findEdges :: "job list \<Rightarrow> (job \<times> job) set" where
  "findEdges js =
     {(a, b). a \<in> set js \<and> (\<exists>t\<in>set (dependencies a). find (\<lambda>j. jtype j = t) js = Some b)}"

definition appearsBefore :: "'a \<Rightarrow> 'a \<Rightarrow> 'a list \<Rightarrow> bool" where
  "appearsBefore d j xs = (j \<in> set xs \<and> d \<in> set (takeWhile (\<lambda>x. x \<noteq> j) xs))"

definition depsPlaced :: "job list \<Rightarrow> job list \<Rightarrow> bool" where
  "depsPlaced js placed =
     (\<forall>i<length placed. \<forall>t\<in>set (dependencies (placed ! i)). \<forall>d.
        find (\<lambda>j. jtype j = t) js = Some d \<longrightarrow> d \<in> set (take i placed))"

definition sortInv :: "job list \<Rightarrow> job_id set \<times> job list \<Rightarrow> bool" where
  "sortInv js st =
     (fst st = jid ` set (snd st) \<and> distinct (map jid (snd st)) \<and> set (snd st) \<subseteq> set js
      \<and> depsPlaced js (snd st))"

definition visitPost :: "job list \<Rightarrow> job_id set \<Rightarrow> job_id set \<times> job list \<Rightarrow> job_id set \<times> job list \<Rightarrow> bool" where
  "visitPost js visiting st st' =
     (sortInv js st' \<and> (\<exists>ext. snd st' = snd st @ ext) \<and> (fst st' - fst st) \<inter> visiting = {})"

section \<open>Concrete inputs\<close>

definition patch :: "int \<Rightarrow> string \<Rightarrow> string \<Rightarrow> rat \<Rightarrow> remediation" where
  "patch n crit after c =
     \<lparr>status = ''success'', lineNumber = Some n, beforeCode = Some ''<img src=a>'',
      afterCode = after, confidence = Some c, explanation = ''fix'', wcagCriterion = crit,
      jobId = None, jobType = None, mergedFrom = []\<rparr>"

definition structureGroup :: issueGroup where
  "structureGroup =
     \<lparr>gtype = None, gcriterion = Some ''1.3.1'', gissues = None, gdependencies = Some []\<rparr>"

definition contrastGroup :: issueGroup where
  "contrastGroup =
     \<lparr>gtype = None, gcriterion = Some ''1.4.3'', gissues = None,
      gdependencies = Some [''1.3.1'']\<rparr>"

text \<open>The jobs \<open>createJobs\<close> makes of the two example groups at index \<open>i\<close>, with one
  retry.\<close>

definition contrastJob :: "nat \<Rightarrow> job" where
  "contrastJob i = createJob 1 i contrastGroup"

definition structureJob :: "nat \<Rightarrow> job" where
  "structureJob i = createJob 1 i structureGroup"

text \<open>\<^verbatim>\<open>maxConcurrency: 1, retryAttempts: 1\<close>, so \<^verbatim>\<open>maxAttempts\<close> is 2.\<close>

definition oneRetry :: config where
  "oneRetry = mkConfig (Some 1) (Some 1)"

definition failThenSucceed :: schedule where
  "failThenSucceed c = (0, if c = 0 then Rejected ''Job timed out'' else Resolved [])"

definition alwaysFail :: schedule where
  "alwaysFail c = (0, Rejected ''Job timed out'')"

text \<open>A batch of two jobs, the second depending on the type of the first, and the
  state in which the scheduler polls the second one after the first has failed.\<close>

definition blockedBatch :: "job list" where
  "blockedBatch = createJobs oneRetry [structureGroup, contrastGroup]"

definition blockedState :: exec_state where
  "blockedState =
     \<lparr>pc = AtInner,
      jobs = [\<lparr>jid = 0, jtype = ''1.3.1'',
               issues = [\<lparr>itype = None, criterion = Some ''1.3.1''\<rparr>], dependencies = [],
               jstatus = ''processing'', attempts = 2, maxAttempts = 2\<rparr>,
              \<lparr>jid = 1, jtype = ''1.4.3'',
               issues = [\<lparr>itype = None, criterion = Some ''1.4.3''\<rparr>],
               dependencies = [''1.3.1''], jstatus = ''pending'', attempts = 0,
               maxAttempts = 2\<rparr>],
      jobQueue = [\<lparr>jid = 1, jtype = ''1.4.3'',
                   issues = [\<lparr>itype = None, criterion = Some ''1.4.3''\<rparr>],
                   dependencies = [''1.3.1''], jstatus = ''pending'', attempts = 0,
                   maxAttempts = 2\<rparr>],
      processing = [],
      results = [failedResult 0 ''Job timed out''],
      completedCount = 3, completedJobs = 0, failedJobs = 3, workerCalls = [0, 0, 0]\<rparr>"


text \<open>The limiter's map after \<open>n\<close> calls of \<^verbatim>\<open>canMakeRequest\<close> at time \<open>0\<close>.\<close>

definition requestsAfter :: "nat \<Rightarrow> (int \<times> nat) list" where
  "requestsAfter n = ((\<lambda>requests. snd (canMakeRequest 0 requests)) ^^ n) []"

section \<open>The priority strategy\<close>

text \<open>
  C5. The claim: the \<^verbatim>\<open>priority\<close> strategy selects the patch whose criterion is earliest
  in the precedence list, language (\<^verbatim>\<open>3.1.1\<close>) first. The code: between a \<^verbatim>\<open>3.1.1\<close>
  patch and a \<^verbatim>\<open>4.1.2\<close> patch it selects the \<^verbatim>\<open>4.1.2\<close> one, in either input order,
  because the index \<open>0\<close> of \<^verbatim>\<open>3.1.1\<close> is falsy and becomes \<open>999\<close>; a criterion that is
  not in the list has index \<open>-1\<close> and is selected before every listed one. The
  example of the claim (\<^verbatim>\<open>1.1.1\<close> against \<^verbatim>\<open>4.1.2\<close>) does hold.
\<close>

theorem priority_puts_language_last:
  "resolveByCriteriaPriority [patch 1 ''3.1.1'' ''x'' 1, patch 1 ''4.1.2'' ''y'' 1]
     = Some (patch 1 ''4.1.2'' ''y'' 1)
   \<and> resolveByCriteriaPriority [patch 1 ''4.1.2'' ''y'' 1, patch 1 ''3.1.1'' ''x'' 1]
     = Some (patch 1 ''4.1.2'' ''y'' 1)
   \<and> resolveByCriteriaPriority [patch 1 ''3.1.1'' ''x'' 1, patch 1 ''9.9.9'' ''z'' 1]
     = Some (patch 1 ''9.9.9'' ''z'' 1)
   \<and> resolveByCriteriaPriority [patch 1 ''4.1.2'' ''y'' 1, patch 1 ''1.1.1'' ''x'' 1]
     = Some (patch 1 ''1.1.1'' ''x'' 1)"
  by (simp add: resolveByCriteriaPriority_def sortBy_def first_def priorityIndex_def
      priorityOrder_def patch_def)

section \<open>The merge strategy\<close>

text \<open>
  C6. The claim: merging two patches that each add a different attribute to the line
  gives one patch with status \<^verbatim>\<open>merged\<close> whose \<^verbatim>\<open>afterCode\<close> has both attributes. The
  code: \<^verbatim>\<open>mergeAttributes\<close> returns the new line, so the merged line is the
  \<^verbatim>\<open>afterCode\<close> of the last patch applied. On the line \<^verbatim>\<open><img src=a>\<close>, with one patch
  adding \<^verbatim>\<open>alt=x\<close> and one adding \<^verbatim>\<open>lang=en\<close>, the result has status \<^verbatim>\<open>merged\<close>, is
  merged from both, and has lost \<^verbatim>\<open>alt=x\<close>.
\<close>

theorem merge_keeps_last_attribute_only:
  "map_option (\<lambda>m. (status m, afterCode m, mergedFrom m, strIncludes (afterCode m) ''alt=x'',
        strIncludes (afterCode m) ''lang=en''))
     (mergeRemediations
        [patch 1 ''1.1.1'' ''<img src=a alt=x>'' (9 / 10),
         patch 1 ''3.1.1'' ''<img src=a lang=en>'' (8 / 10)]
        (Some ''<img src=a>''))
   = Some (''merged'', ''<img src=a lang=en>'', [''1.1.1'', ''3.1.1''], False, True)"
  by (simp add: mergeRemediations_def sortBy_def conf_def patch_def mergeStep_def
      attemptMerge_def hasAttributeConflict_def mergeAttributes_def)

section \<open>Retries\<close>

text \<open>
  C7. The claim: a job with \<^verbatim>\<open>maxAttempts = 2\<close> whose worker call fails once and then
  succeeds ends with a result of status \<^verbatim>\<open>success\<close> and \<^verbatim>\<open>attempts = 2\<close>. The code:
  the result has status \<^verbatim>\<open>success\<close>, and \<^verbatim>\<open>attempts\<close> is \<open>1\<close>, since the counter is
  incremented only when a failed job is queued again.
\<close>

theorem retry_once_leaves_attempts_one:
  "map_option (\<lambda>s. (map rstatus (results s), map attempts (jobs s), map maxAttempts (jobs s)))
     (executeJobs 20 failThenSucceed oneRetry (createJobs oneRetry [structureGroup]))
   = Some ([''success''], [1], [2])"
  by code_simp

text \<open>
  C8. The claim: a job whose worker call fails on all its attempts ends \<^verbatim>\<open>failed\<close>
  with as many failed placeholders as it has issues. The code: the result is
  \<^verbatim>\<open>failed\<close> and its \<^verbatim>\<open>remediations\<close> is the empty array, for a job with one issue
  (and the worker has been called three times with \<^verbatim>\<open>maxAttempts = 2\<close>).
\<close>

theorem exhausted_job_has_no_placeholders:
  "map_option (\<lambda>s. (map rstatus (results s), map (length \<circ> remediations) (results s),
        map (length \<circ> issues) (jobs s), map maxAttempts (jobs s), completedCount s))
     (executeJobs 20 alwaysFail oneRetry (createJobs oneRetry [structureGroup]))
   = Some ([''failed''], [0], [1], [2], 3)"
  by code_simp

text \<open>The sibling path in the agent does synthesize one placeholder per issue.\<close>

lemma settle_rejected_length: "length (settleIssueType t typeIssues (Inl e)) = length typeIssues"
  by (simp add: settleIssueType_def)

section \<open>Concurrency: the map and the worker calls\<close>

lemma length_mapSet: "length (mapSet k v m) \<le> Suc (length m)"
  by (induction m) auto

lemma processing_dispatch:
  assumes lt: "length (processing s) < m"
  shows "length (processing (dispatch s)) \<le> m"
proof (cases "jobQueue s")
  case Nil
  with lt show ?thesis by (simp add: dispatch_def)
next
  case (Cons job queue)
  have "length (mapSet (jid job) (job\<lparr>jstatus := ''processing''\<rparr>) (processing s)) \<le> m"
    using length_mapSet [of "jid job" "job\<lparr>jstatus := ''processing''\<rparr>" "processing s"] lt by simp
  with Cons lt show ?thesis by (simp add: dispatch_def Let_def)
qed

lemma processing_complete:
  "length (processing (complete ev s)) \<le> length (processing s)"
  by (simp add: complete_def Let_def split: prod.splits outcome.splits option.splits)

lemma processing_step:
  assumes "length (processing s) \<le> m"
  shows "length (processing (step sched m s)) \<le> m"
proof (cases "pc s")
  case AtOuter
  with assms show ?thesis by (simp add: step_def)
next
  case AtInner
  with assms show ?thesis by (simp add: step_def processing_dispatch)
next
  case AtRace
  with assms processing_complete [of "sched (completedCount s)" s] show ?thesis
    by (simp add: step_def)
next
  case Returned
  with assms show ?thesis by (simp add: step_def)
qed

lemma processing_stepsFrom:
  "length (processing s) \<le> m \<Longrightarrow> length (processing (stepsFrom sched m n s)) \<le> m"
  by (induction n arbitrary: s) (simp_all add: processing_step)

text \<open>
  The bookkeeping is bounded: for every batch of jobs, every schedule of completions and
  every number of steps, the size of the \<^verbatim>\<open>processing\<close> map is at most
  \<^verbatim>\<open>maxConcurrency\<close>.
\<close>

lemma processing_within_maxConcurrency:
  "length (processing (stateAfter sched (maxConcurrency cfg) js n)) \<le> maxConcurrency cfg"
  unfolding stateAfter_def by (rule processing_stepsFrom) (simp add: initState_def)

text \<open>
  C1. The claim: at every point of \<^verbatim>\<open>executeJobs\<close> the number of in-flight Completion
  Worker calls, which it takes to be the size of the \<^verbatim>\<open>processing\<close> map, never exceeds
  \<^verbatim>\<open>maxConcurrency\<close>. The code: the map is bounded, and the calls are not. With
  \<^verbatim>\<open>maxConcurrency = 1\<close> and one job whose calls all lose against the timer, the first
  call is in flight after two steps; the timeout deletes the map entry and queues the
  job again without cancelling the call, and after six steps the job is dispatched a
  second time: the map has one entry and two calls of \<^verbatim>\<open>agent.remediateIssues\<close> are in
  flight. After ten steps, if the service has answered neither, there are three.
\<close>

theorem timed_out_calls_exceed_maxConcurrency:
  "maxConcurrency oneRetry = 1
   \<and> timedOut ''Job timed out''
   \<and> map (\<lambda>n. let s = stateAfter alwaysFail (maxConcurrency oneRetry)
                         (createJobs oneRetry [structureGroup]) n
              in (length (processing s), length (workerCalls s)))
       [2, 6, 10]
     = [(1, 1), (1, 2), (1, 3)]"
  by code_simp

section \<open>Unmet dependencies\<close>

lemma step_Returned: "pc s = Returned \<Longrightarrow> step sched m s = s"
  by (simp add: step_def)

lemma run_step_None:
  assumes "\<And>n. run n sched m (step sched m s) = None"
  shows "run n sched m s = None"
proof (cases n)
  case 0
  then show ?thesis by simp
next
  case (Suc k)
  show ?thesis
  proof (cases "pc s = Returned")
    case True
    then have "run n sched m s = run n sched m (step sched m s)" by (simp add: step_Returned)
    with assms show ?thesis by simp
  next
    case False
    with Suc assms show ?thesis by simp
  qed
qed

lemma run_stepsFrom_None:
  "(\<And>n. run n sched m (stepsFrom sched m k s) = None) \<Longrightarrow> run n sched m s = None"
proof (induction k arbitrary: s n)
  case 0
  then show ?case by simp
next
  case (Suc k)
  have "run n sched m (stepsFrom sched m k (step sched m s)) = None" for n
    using Suc.prems [of n] by simp
  then have "run n sched m (step sched m s) = None" for n
    by (rule Suc.IH)
  then show ?case by (rule run_step_None)
qed

lemma run_stuck:
  "step sched m s = s \<Longrightarrow> pc s \<noteq> Returned \<Longrightarrow> run n sched m s = None"
  by (induction n) simp_all

lemma blocked_reached: "stateAfter alwaysFail 1 blockedBatch 16 = blockedState"
  by code_simp

lemma blocked_fix: "step alwaysFail 1 blockedState = blockedState"
  by code_simp

text \<open>
  C2. The claim: when a job's dependency ends in a non-success state, the dependent job
  is marked failed after a bounded number of polling cycles and \<^verbatim>\<open>executeJobs\<close>
  returns with a result for every job. The code: with \<^verbatim>\<open>maxConcurrency = 1\<close> and a
  worker that always fails, the first job of the batch ends \<^verbatim>\<open>failed\<close> after its
  retries, and from then on the inner loop shifts the dependent job, finds its
  dependency unmet, pushes it back and sleeps, for ever: \<^verbatim>\<open>executeJobs\<close> does not
  return, whatever the fuel.
\<close>

theorem unmet_dependency_never_returns:
  "executeJobs fuel alwaysFail oneRetry blockedBatch = None"
proof -
  have mc: "maxConcurrency oneRetry = 1" by (simp add: oneRetry_def mkConfig_def orDefault_def)
  have "pc blockedState \<noteq> Returned" by (simp add: blockedState_def)
  then have "run n alwaysFail 1 blockedState = None" for n
    using blocked_fix by (intro run_stuck)
  then have "run n alwaysFail 1 (stepsFrom alwaysFail 1 16 (initState blockedBatch)) = None" for n
    using blocked_reached by (simp only: stateAfter_def)
  then have "run fuel alwaysFail 1 (initState blockedBatch) = None"
    by (rule run_stepsFrom_None)
  then show ?thesis by (simp only: executeJobs_def mc)
qed

section \<open>Rate limiting\<close>

lemma canMakeRequest_empty: "canMakeRequest 0 [] = (True, [(0, 1)])"
  by (simp add: canMakeRequest_def windowMs_def maxRequests_def)

lemma canMakeRequest_grant:
  "k < 60 \<Longrightarrow> canMakeRequest 0 [(0, k)] = (True, [(0, Suc k)])"
  by (simp add: canMakeRequest_def windowMs_def maxRequests_def)

lemma canMakeRequest_deny: "canMakeRequest 0 [(0, 60)] = (False, [(0, 60)])"
  by (simp add: canMakeRequest_def windowMs_def maxRequests_def)

lemma requestsAfter_Suc: "n < 60 \<Longrightarrow> requestsAfter (Suc n) = [(0, Suc n)]"
proof (induction n)
  case 0
  then show ?case by (simp add: requestsAfter_def canMakeRequest_empty)
next
  case (Suc n)
  then have "requestsAfter (Suc n) = [(0, Suc n)]" by simp
  then have "requestsAfter (Suc (Suc n)) = snd (canMakeRequest 0 [(0, Suc n)])"
    by (simp add: requestsAfter_def)
  with Suc.prems show ?case by (simp add: canMakeRequest_grant)
qed

lemma requestsAfter_60: "requestsAfter 60 = [(0, 60)]"
  using requestsAfter_Suc [of 59] by simp

text \<open>
  C9. The claim: when the rate limiter denies a call, the coordinator only waits and
  retries; a denial alone never fails the job nor consumes a retry attempt. The code:
  the \<^verbatim>\<open>continue\<close> after the denial increments \<^verbatim>\<open>attempt\<close>. With the default
  \<^verbatim>\<open>retries = 1\<close> and a limiter that has granted 60 calls in the current window, the
  only attempt is consumed by the denial and \<^verbatim>\<open>processIssueType\<close> throws, whatever the
  worker would have answered (it is never called).
\<close>

theorem rate_limit_denial_fails_issue_type:
  "fst (processIssueType 1 (\<lambda>a. 0) worker (requestsAfter 60)) = Inl TypeError"
proof -
  have "processLoop 1 (\<lambda>a. 0) worker (1 + 1) None [(0, 60)] = (Inl TypeError, [(0, 60)])"
    by (subst processLoop.simps) simp
  then have "processLoop 1 (\<lambda>a. 0) worker 1 None [(0, 60)] = (Inl TypeError, [(0, 60)])"
    by (subst processLoop.simps) (simp only: canMakeRequest_deny le_refl if_True prod.case bool.case)
  then show ?thesis
    by (simp add: requestsAfter_60 processIssueType_def)
qed

section \<open>Applying remediations: line count and frame\<close>

lemma split_line: "CHR 0x0A \<notin> set l \<Longrightarrow> split l = [l]"
  by (induction l) auto

lemma split_append_newline:
  "CHR 0x0A \<notin> set l \<Longrightarrow> split (l @ CHR 0x0A # rest) = l # split rest"
  by (induction l) auto

lemma split_join:
  "ls \<noteq> [] \<Longrightarrow> \<forall>l\<in>set ls. CHR 0x0A \<notin> set l \<Longrightarrow> split (join [CHR 0x0A] ls) = ls"
proof (induction ls)
  case Nil
  then show ?case by simp
next
  case (Cons x xs)
  show ?case
  proof (cases xs)
    case Nil
    with Cons.prems show ?thesis by (simp add: split_line)
  next
    case (Cons y ys)
    with Cons.prems Cons.IH show ?thesis by (simp add: split_append_newline)
  qed
qed

lemma split_no_newline: "l \<in> set (split s) \<Longrightarrow> CHR 0x0A \<notin> set l"
  by (induction s arbitrary: l) (auto split: if_splits list.splits)

lemma split_not_Nil: "split s \<noteq> []"
  by (induction s) (auto split: list.splits)

lemma set_insertBy: "set (insertBy gt x ys) = insert x (set ys)"
  by (induction ys) auto

lemma set_sortBy: "set (sortBy gt xs) = set xs"
  unfolding sortBy_def by (induction xs) (simp_all add: set_insertBy)

lemma applyOne_length: "length (fst (applyOne r st)) = length (fst st)"
  by (cases st) (simp add: applyOne_def split: option.splits)

lemma applyOne_frame:
  "lineNumber r \<noteq> Some (int i + 1) \<Longrightarrow> fst (applyOne r st) ! i = fst st ! i"
  by (cases st) (auto simp: applyOne_def split: option.splits)

lemma applyOne_newline:
  assumes "\<forall>l\<in>set (fst st). CHR 0x0A \<notin> set l"
    and "inRange (fst st) r \<longrightarrow> CHR 0x0A \<notin> set (afterCode r)"
  shows "\<forall>l\<in>set (fst (applyOne r st)). CHR 0x0A \<notin> set l"
proof (cases st)
  case (fields lines cnt errs)
  show ?thesis
  proof (cases "inRange lines r")
    case True
    then obtain n where n: "lineNumber r = Some n" "n - 1 \<ge> 0" "n - 1 < int (length lines)"
      by (auto simp: inRange_def split: option.splits)
    have "set (lines[nat (n - 1) := afterCode r]) \<subseteq> insert (afterCode r) (set lines)"
      by (rule set_update_subset_insert)
    with assms True fields n show ?thesis by (auto simp: applyOne_def)
  next
    case False
    with assms fields show ?thesis by (auto simp: applyOne_def inRange_def split: option.splits)
  qed
qed

lemma inRange_length: "length a = length b \<Longrightarrow> inRange a r = inRange b r"
  by (cases "lineNumber r") (simp_all add: inRange_def)

lemma fold_applyOne_length: "length (fst (fold applyOne rs st)) = length (fst st)"
  by (induction rs arbitrary: st) (simp_all add: applyOne_length)

lemma fold_applyOne_frame:
  "\<forall>r\<in>set rs. lineNumber r \<noteq> Some (int i + 1) \<Longrightarrow> fst (fold applyOne rs st) ! i = fst st ! i"
  by (induction rs arbitrary: st) (simp_all add: applyOne_frame)

lemma fold_applyOne_newline:
  "\<forall>l\<in>set (fst st). CHR 0x0A \<notin> set l \<Longrightarrow>
   \<forall>r\<in>set rs. inRange (fst st) r \<longrightarrow> CHR 0x0A \<notin> set (afterCode r) \<Longrightarrow>
   \<forall>l\<in>set (fst (fold applyOne rs st)). CHR 0x0A \<notin> set l"
proof (induction rs arbitrary: st)
  case Nil
  then show ?case by simp
next
  case (Cons r rs)
  have a: "\<forall>l\<in>set (fst (applyOne r st)). CHR 0x0A \<notin> set l"
    using Cons.prems by (intro applyOne_newline) simp_all
  have b: "\<forall>q\<in>set rs. inRange (fst (applyOne r st)) q \<longrightarrow> CHR 0x0A \<notin> set (afterCode q)"
    using Cons.prems(2) inRange_length [OF applyOne_length [of r st]] by simp
  from Cons.IH [OF a b] show ?case by simp
qed

lemma modifiedHtml_eq:
  "modifiedHtml (applyRemediations src rems)
     = join [CHR 0x0A]
         (fst (fold applyOne (sortBy lineGt (filter (\<lambda>r. status r = ''success'') rems))
            (split src, 0, [])))"
  by (simp add: applyRemediations_def Let_def split: prod.splits)

text \<open>
  C10, as amended. The claim as stated fails when an applied \<^verbatim>\<open>afterCode\<close> contains a
  line feed: the array of lines keeps its length, and the joined text has more lines.
  For every source text and every remediation list in which no in-range remediation of
  status \<^verbatim>\<open>success\<close> has a line feed in its \<^verbatim>\<open>afterCode\<close>, the \<^verbatim>\<open>modifiedHtml\<close> of
  \<^verbatim>\<open>applyRemediations\<close> has exactly as many lines as the source, and every line whose
  1-based number is not the \<^verbatim>\<open>lineNumber\<close> of a remediation of status \<^verbatim>\<open>success\<close> is the
  line of the source.
\<close>

theorem applyRemediations_lines_and_frame:
  assumes "\<forall>r\<in>set rems. status r = ''success'' \<and> inRange (split src) r
             \<longrightarrow> CHR 0x0A \<notin> set (afterCode r)"
  shows "length (split (modifiedHtml (applyRemediations src rems))) = length (split src)
       \<and> (\<forall>i<length (split src).
            \<not> (\<exists>r\<in>set rems. status r = ''success'' \<and> lineNumber r = Some (int i + 1))
            \<longrightarrow> split (modifiedHtml (applyRemediations src rems)) ! i = split src ! i)"
proof -
  let ?rs = "sortBy lineGt (filter (\<lambda>r. status r = ''success'') rems)"
  let ?out = "fst (fold applyOne ?rs (split src, 0, []))"
  have len: "length ?out = length (split src)"
    by (simp add: fold_applyOne_length)
  have "\<forall>l\<in>set ?out. CHR 0x0A \<notin> set l"
    using assms by (intro fold_applyOne_newline) (auto simp: set_sortBy split_no_newline)
  moreover have "?out \<noteq> []"
    using len split_not_Nil [of src] by auto
  ultimately have rt: "split (modifiedHtml (applyRemediations src rems)) = ?out"
    by (simp add: modifiedHtml_eq split_join)
  have frame: "?out ! i = split src ! i"
    if "\<not> (\<exists>r\<in>set rems. status r = ''success'' \<and> lineNumber r = Some (int i + 1))" for i
    using that fold_applyOne_frame [of ?rs i "(split src, 0, [])"] by (auto simp: set_sortBy)
  from rt len frame show ?thesis by simp
qed

text \<open>On the two-line source \<^verbatim>\<open>a\<close>, \<^verbatim>\<open>b\<close> with one patch for line 2: two lines come
  out and line 1 is untouched.\<close>

theorem applyRemediations_lines_and_frame_witness:
  "length (split (modifiedHtml (applyRemediations (''a'' @ [CHR 0x0A] @ ''b'') [patch 2 ''1.1.1'' ''B'' 1])))
     = 2
   \<and> split (modifiedHtml (applyRemediations (''a'' @ [CHR 0x0A] @ ''b'') [patch 2 ''1.1.1'' ''B'' 1])) ! 0
     = ''a''"
proof -
  let ?src = "''a'' @ [CHR 0x0A] @ ''b''"
  let ?rems = "[patch 2 ''1.1.1'' ''B'' 1]"
  have sp: "split ?src = [''a'', ''b'']" by simp
  have h: "\<forall>r\<in>set ?rems. status r = ''success'' \<and> inRange (split ?src) r
             \<longrightarrow> CHR 0x0A \<notin> set (afterCode r)"
    by (simp add: patch_def)
  note c = applyRemediations_lines_and_frame [OF h]
  from c have l: "length (split (modifiedHtml (applyRemediations ?src ?rems))) = 2"
    by (simp only: sp) simp
  have "\<not> (\<exists>r\<in>set ?rems. status r = ''success'' \<and> lineNumber r = Some (int 0 + 1))"
    by (simp add: patch_def)
  moreover have "0 < length (split ?src)" by (simp only: sp) simp
  ultimately have "split (modifiedHtml (applyRemediations ?src ?rems)) ! 0 = split ?src ! 0"
    using c by blast
  then have "split (modifiedHtml (applyRemediations ?src ?rems)) ! 0 = ''a''"
    by (simp only: sp) simp
  with l show ?thesis by simp
qed

text \<open>The claim as stated fails: a patch whose \<^verbatim>\<open>afterCode\<close> holds a line feed turns the
  one-line source \<^verbatim>\<open>a\<close> into a text of two lines.\<close>

theorem applyRemediations_line_count_counterexample:
  "length (split (modifiedHtml (applyRemediations ''a''
       [patch 1 ''1.1.1'' (''x'' @ [CHR 0x0A] @ ''y'') 1])))
   \<noteq> length (split ''a'')"
  by (simp add: applyRemediations_def sortBy_def applyOne_def patch_def)

section \<open>Conflict resolution: entries per line\<close>























section \<open>Dependency order\<close>

lemma find_Some_set: "find P xs = Some x \<Longrightarrow> x \<in> set xs \<and> P x"
  by (induction xs) (auto split: if_splits)

lemma findEdges_subset: "findEdges js \<subseteq> dependencyEdges js"
  by (auto simp: findEdges_def dependencyEdges_def dest: find_Some_set)

lemma jid_inj: "distinct (map jid js) \<Longrightarrow> a \<in> set js \<Longrightarrow> b \<in> set js \<Longrightarrow> jid a = jid b \<Longrightarrow> a = b"
  by (meson distinct_map inj_onD)

lemma depsPlaced_snoc:
  assumes "depsPlaced js placed"
    and "\<forall>t\<in>set (dependencies job). \<forall>d. find (\<lambda>j. jtype j = t) js = Some d \<longrightarrow> d \<in> set placed"
  shows "depsPlaced js (placed @ [job])"
  unfolding depsPlaced_def
proof (intro allI impI ballI)
  fix i t d
  assume i: "i < length (placed @ [job])"
    and t: "t \<in> set (dependencies ((placed @ [job]) ! i))"
    and d: "find (\<lambda>j. jtype j = t) js = Some d"
  show "d \<in> set (take i (placed @ [job]))"
  proof (cases "i < length placed")
    case True
    with t have "t \<in> set (dependencies (placed ! i))" by (simp add: nth_append)
    with assms(1) True d have "d \<in> set (take i placed)" by (auto simp: depsPlaced_def)
    with True show ?thesis by simp
  next
    case False
    with i have eq: "i = length placed" by simp
    with t have "t \<in> set (dependencies job)" by simp
    with assms(2) d have "d \<in> set placed" by blast
    with eq show ?thesis by simp
  qed
qed

lemma visitPost_refl: "sortInv js st \<Longrightarrow> visitPost js visiting st st"
  by (simp add: visitPost_def)

lemma visitPost_grows:
  assumes "sortInv js st" and "visitPost js visiting st st'"
  shows "fst st \<subseteq> fst st'"
proof -
  from assms(2) obtain ext where "snd st' = snd st @ ext" by (auto simp: visitPost_def)
  moreover from assms have "fst st = jid ` set (snd st)" "fst st' = jid ` set (snd st')"
    by (simp_all add: visitPost_def sortInv_def)
  ultimately show ?thesis by auto
qed

lemma visitPost_trans:
  assumes "visitPost js visiting st st1" and "visitPost js visiting st1 st2"
  shows "visitPost js visiting st st2"
proof -
  from assms obtain e1 e2 where "snd st1 = snd st @ e1" "snd st2 = snd st1 @ e2"
    by (auto simp: visitPost_def)
  then have "snd st2 = snd st @ (e1 @ e2)" by simp
  then have "\<exists>ext. snd st2 = snd st @ ext" by blast
  moreover from assms have "(fst st2 - fst st) \<inter> visiting = {}"
    by (auto simp: visitPost_def)
  ultimately show ?thesis using assms(2) by (simp add: visitPost_def)
qed

lemma visitPost_push:
  assumes dist: "distinct (map jid js)"
    and job: "job \<in> set js" "jid job \<notin> visiting" "jid job \<notin> fst st"
    and inv: "sortInv js st"
    and post: "visitPost js (insert (jid job) visiting) st st1"
    and deps: "\<forall>t\<in>set (dependencies job). \<forall>d.
                 find (\<lambda>j. jtype j = t) js = Some d \<longrightarrow> jid d \<in> fst st1"
  shows "visitPost js visiting st (insert (jid job) (fst st1), snd st1 @ [job])"
proof -
  from post have inv1: "sortInv js st1" and d1: "(fst st1 - fst st) \<inter> insert (jid job) visiting = {}"
    by (simp_all add: visitPost_def)
  from post obtain ext where ext: "snd st1 = snd st @ ext" by (auto simp: visitPost_def)
  from d1 job(3) have fresh: "jid job \<notin> fst st1" by auto
  from inv1 have f1: "fst st1 = jid ` set (snd st1)" and di1: "distinct (map jid (snd st1))"
    and sub1: "set (snd st1) \<subseteq> set js" and pl1: "depsPlaced js (snd st1)"
    by (simp_all add: sortInv_def)
  have placed: "\<forall>t\<in>set (dependencies job). \<forall>d.
      find (\<lambda>j. jtype j = t) js = Some d \<longrightarrow> d \<in> set (snd st1)"
  proof (intro ballI allI impI)
    fix t d assume t: "t \<in> set (dependencies job)" and d: "find (\<lambda>j. jtype j = t) js = Some d"
    with deps have "jid d \<in> fst st1" by blast
    with f1 obtain x where x: "x \<in> set (snd st1)" "jid x = jid d" by auto
    from d have "d \<in> set js" by (simp add: find_Some_set)
    with x sub1 dist have "x = d" by (meson jid_inj subsetD)
    with x show "d \<in> set (snd st1)" by simp
  qed
  have "sortInv js (insert (jid job) (fst st1), snd st1 @ [job])"
    using f1 di1 sub1 fresh job(1) depsPlaced_snoc [OF pl1 placed]
    by (simp add: sortInv_def)
  moreover have "\<exists>e. snd st1 @ [job] = snd st @ e" using ext by simp
  moreover have "(insert (jid job) (fst st1) - fst st) \<inter> visiting = {}"
    using d1 job(2) by auto
  ultimately show ?thesis by (simp add: visitPost_def)
qed

lemma visit_visitDeps_correct:
  assumes dist: "distinct (map jid js)" and acyc: "acyclic (findEdges js)"
  shows "\<And>S. job \<in> set js \<Longrightarrow> sortInv js st \<Longrightarrow> S \<subseteq> set js \<Longrightarrow> visiting = jid ` S \<Longrightarrow>
           \<forall>s\<in>S. (s, job) \<in> (findEdges js)\<^sup>+ \<Longrightarrow>
           visitPost js visiting st (visit js visiting job st)
           \<and> jid job \<in> fst (visit js visiting job st)"
    and "\<And>S p. sortInv js st \<Longrightarrow> S \<subseteq> set js \<Longrightarrow> visiting = jid ` S \<Longrightarrow> p \<in> S \<Longrightarrow>
           set deps \<subseteq> set (dependencies p) \<Longrightarrow> \<forall>s\<in>S. (s, p) \<in> (findEdges js)\<^sup>* \<Longrightarrow>
           visitPost js visiting st (visitDeps js visiting deps st)
           \<and> (\<forall>t\<in>set deps. \<forall>d. find (\<lambda>j. jtype j = t) js = Some d
                  \<longrightarrow> jid d \<in> fst (visitDeps js visiting deps st))"
  using dist acyc
proof (induction js visiting job st and js visiting deps st rule: visit_visitDeps.induct)
  case (1 jobs visiting job st)
  note dist = "1.prems"(6) and acyc = "1.prems"(7)
  show ?case
  proof (cases "jid job \<in> visiting")
    case True
    with "1.prems"(4) obtain s where s: "s \<in> S" "jid s = jid job" by auto
    with "1.prems"(3) have "s \<in> set jobs" by auto
    with s "1.prems"(1) dist have "s = job" by (meson jid_inj)
    with s "1.prems"(5) have "(job, job) \<in> (findEdges jobs)\<^sup>+" by simp
    with acyc show ?thesis by (simp add: acyclic_def)
  next
    case nv: False
    show ?thesis
    proof (cases "jid job \<in> fst st")
      case True
      with nv "1.prems"(2) show ?thesis by (simp add: visit.simps visitPost_refl)
    next
      case nd: False
      let ?st1 = "visitDeps jobs (insert (jid job) visiting) (dependencies job) st"
      have S': "insert job S \<subseteq> set jobs" using "1.prems"(1,3) by simp
      have V': "insert (jid job) visiting = jid ` insert job S" using "1.prems"(4) by simp
      have R': "\<forall>s\<in>insert job S. (s, job) \<in> (findEdges jobs)\<^sup>*"
        using "1.prems"(5) by (auto intro: trancl_into_rtrancl)
      have pin: "job \<in> insert job S" by simp
      have sub: "set (dependencies job) \<subseteq> set (dependencies job)" by simp
      from "1.IH" [OF nv nd "1.prems"(2) S' V' pin sub R' dist acyc]
      have post: "visitPost jobs (insert (jid job) visiting) st ?st1"
        and deps: "\<forall>t\<in>set (dependencies job). \<forall>d.
              find (\<lambda>j. jtype j = t) jobs = Some d \<longrightarrow> jid d \<in> fst ?st1"
        by simp_all
      have v: "visit jobs visiting job st = (insert (jid job) (fst ?st1), snd ?st1 @ [job])"
        using nv nd by (simp add: visit.simps Let_def)
      from visitPost_push [OF dist "1.prems"(1) nv nd "1.prems"(2) post deps]
      show ?thesis by (simp add: v)
    qed
  qed
next
  case (2 jobs visiting st)
  then show ?case by (simp add: visitPost_refl)
next
  case (3 jobs visiting depType rest st)
  note dist = "3.prems"(7) and acyc = "3.prems"(8)
  from "3.prems"(5) have rest: "set rest \<subseteq> set (dependencies p)"
    and dt: "depType \<in> set (dependencies p)" by simp_all
  show ?case
  proof (cases "find (\<lambda>j. jtype j = depType) jobs")
    case None
    from "3.IH"(1) [OF None "3.prems"(1,2,3,4) rest "3.prems"(6) dist acyc] None
    show ?thesis by simp
  next
    case (Some d)
    let ?st1 = "visit jobs visiting d st"
    let ?st2 = "visitDeps jobs visiting rest ?st1"
    from Some have dj: "d \<in> set jobs" by (simp add: find_Some_set)
    have pj: "p \<in> set jobs" using "3.prems"(2,4) by auto
    have edge: "(p, d) \<in> findEdges jobs"
      using pj dt Some by (auto simp: findEdges_def)
    have reach: "\<forall>s\<in>S. (s, d) \<in> (findEdges jobs)\<^sup>+"
      using "3.prems"(6) edge by (auto intro: rtrancl_into_trancl1)
    from "3.IH"(2) [OF Some dj "3.prems"(1,2,3) reach dist acyc]
    have post1: "visitPost jobs visiting st ?st1" and in1: "jid d \<in> fst ?st1" by simp_all
    then have inv1: "sortInv jobs ?st1" by (simp add: visitPost_def)
    from "3.IH"(3) [OF Some inv1 "3.prems"(2,3,4) rest "3.prems"(6) dist acyc]
    have post2: "visitPost jobs visiting ?st1 ?st2"
      and in2: "\<forall>t\<in>set rest. \<forall>d. find (\<lambda>j. jtype j = t) jobs = Some d \<longrightarrow> jid d \<in> fst ?st2"
      by simp_all
    from visitPost_grows [OF inv1 post2] in1 have "jid d \<in> fst ?st2" by auto
    with in2 Some visitPost_trans [OF post1 post2] show ?thesis by simp
  qed
qed

lemma fold_visit_correct:
  assumes dist: "distinct (map jid js)" and acyc: "acyclic (findEdges js)"
  shows "set xs \<subseteq> set js \<Longrightarrow> sortInv js st \<Longrightarrow>
     sortInv js (fold (\<lambda>job st. if jid job \<notin> fst st then visit js {} job st else st) xs st)
     \<and> fst st \<subseteq> fst (fold (\<lambda>job st. if jid job \<notin> fst st then visit js {} job st else st) xs st)
     \<and> (\<forall>j\<in>set xs. jid j \<in> fst (fold (\<lambda>job st. if jid job \<notin> fst st then visit js {} job st else st) xs st))"
proof (induction xs arbitrary: st)
  case Nil
  then show ?case by simp
next
  case (Cons x xs)
  let ?F = "\<lambda>job st. if jid job \<notin> fst st then visit js {} job st else st"
  let ?st1 = "?F x st"
  from Cons.prems have x: "x \<in> set js" and xs: "set xs \<subseteq> set js" by simp_all
  have st1: "sortInv js ?st1 \<and> fst st \<subseteq> fst ?st1 \<and> jid x \<in> fst ?st1"
  proof (cases "jid x \<in> fst st")
    case True
    with Cons.prems(2) show ?thesis by simp
  next
    case False
    have e: "{} \<subseteq> set js" "({}::job_id set) = jid ` {}" "\<forall>s\<in>{}. (s, x) \<in> (findEdges js)\<^sup>+"
      by simp_all
    from visit_visitDeps_correct(1) [OF dist acyc x Cons.prems(2) e]
    have p: "visitPost js {} st (visit js {} x st)" and i: "jid x \<in> fst (visit js {} x st)"
      by simp_all
    from p have "sortInv js (visit js {} x st)" by (simp add: visitPost_def)
    with False i visitPost_grows [OF Cons.prems(2) p] show ?thesis by simp
  qed
  then have inv1: "sortInv js ?st1" by simp
  from Cons.IH [OF xs inv1] st1 show ?case by auto
qed

lemma resolveDependencies_inv:
  assumes dist: "distinct (map jid js)" and acyc: "acyclic (findEdges js)"
  shows "set (resolveDependencies js) = set js \<and> distinct (map jid (resolveDependencies js))
       \<and> depsPlaced js (resolveDependencies js)"
proof -
  let ?st = "fold (\<lambda>job st. if jid job \<notin> fst st then visit js {} job st else st) js ({}, [])"
  have i0: "sortInv js ({}, [])" by (simp add: sortInv_def depsPlaced_def)
  have s0: "set js \<subseteq> set js" by simp
  from fold_visit_correct [OF dist acyc s0 i0]
  have inv: "sortInv js ?st" and all: "\<forall>j\<in>set js. jid j \<in> fst ?st" by simp_all
  from inv have f: "fst ?st = jid ` set (snd ?st)" and d: "distinct (map jid (snd ?st))"
    and sub: "set (snd ?st) \<subseteq> set js" and pl: "depsPlaced js (snd ?st)"
    by (simp_all add: sortInv_def)
  have "set js \<subseteq> set (snd ?st)"
  proof
    fix j assume j: "j \<in> set js"
    with all f obtain x where x: "x \<in> set (snd ?st)" "jid x = jid j" by auto
    with sub j dist have "x = j" by (meson jid_inj subsetD)
    with x show "j \<in> set (snd ?st)" by simp
  qed
  with sub d pl show ?thesis by (auto simp: resolveDependencies_def)
qed

lemma takeWhile_neq_nth:
  assumes "distinct xs" and "i < length xs"
  shows "takeWhile (\<lambda>x. x \<noteq> xs ! i) xs = take i xs"
proof (rule takeWhile_eq_take_P_nth)
  fix k assume "k < i" "k < length xs"
  with assms show "xs ! k \<noteq> xs ! i" by (simp add: nth_eq_iff_index_eq)
next
  show "\<not> xs ! i \<noteq> xs ! i" by simp
qed

lemma find_distinct_type:
  "distinct (map jtype js) \<Longrightarrow> d \<in> set js \<Longrightarrow> find (\<lambda>j. jtype j = jtype d) js = Some d"
  by (induction js) (auto simp: image_iff)

lemma createJobs_examples:
  "createJobs oneRetry [contrastGroup, structureGroup] = [contrastJob 0, structureJob 1]"
  "createJobs oneRetry [contrastGroup, structureGroup, structureGroup]
     = [contrastJob 0, structureJob 1, structureJob 2]"
  by (simp_all add: createJobs_def oneRetry_def mkConfig_def orDefault_def contrastJob_def
      structureJob_def numeral_2_eq_2)

lemma example_jobs_simps:
  "jid (contrastJob i) = i" "jid (structureJob i) = i"
  "jtype (contrastJob i) = ''1.4.3''" "jtype (structureJob i) = ''1.3.1''"
  "dependencies (contrastJob i) = [''1.3.1'']" "dependencies (structureJob i) = []"
  by (simp_all add: contrastJob_def structureJob_def createJob_def contrastGroup_def
      structureGroup_def orElse_def)

lemma example_jobs_neq: "contrastJob i \<noteq> structureJob k"
proof
  assume "contrastJob i = structureJob k"
  then have "jtype (contrastJob i) = jtype (structureJob k)" by simp
  then show False by (simp add: example_jobs_simps)
qed

lemma acyclic_by_rank:
  assumes "\<And>a b. (a, b) \<in> dependencyEdges js \<Longrightarrow> length (dependencies b) < length (dependencies a)"
  shows "acyclic (dependencyEdges js)"
  using assms by (rule acyclicI_order)

lemma resolve_two: "resolveDependencies [contrastJob 0, structureJob 1] = [structureJob 1, contrastJob 0]"
  by code_simp

lemma resolve_three:
  "resolveDependencies [contrastJob 0, structureJob 1, structureJob 2]
     = [structureJob 1, contrastJob 0, structureJob 2]"
  by code_simp

lemma example_edges_rank:
  assumes "set js \<subseteq> {contrastJob 0, structureJob 1, structureJob 2}"
    and "(a, b) \<in> dependencyEdges js"
  shows "length (dependencies b) < length (dependencies a)"
proof -
  from assms have a: "a = contrastJob 0 \<or> a = structureJob 1 \<or> a = structureJob 2"
    and b: "b = contrastJob 0 \<or> b = structureJob 1 \<or> b = structureJob 2"
    and t: "jtype b \<in> set (dependencies a)"
    by (auto simp: dependencyEdges_def)
  from t a have a': "a = contrastJob 0" by (auto simp: example_jobs_simps)
  with t b have "b = structureJob 1 \<or> b = structureJob 2" by (auto simp: example_jobs_simps)
  with a' show ?thesis by (auto simp: example_jobs_simps)
qed

text \<open>
  What the code does guarantee. The dependency is looked up with \<^verbatim>\<open>jobs.find\<close>, so
  only the first job of a type is placed before its dependents: for every list of jobs
  with pairwise distinct ids whose dependency graph is acyclic,
  \<^verbatim>\<open>resolveDependencies\<close> returns a list containing exactly the input jobs, in which
  every job appears after the first job (in input order) of each type it depends on,
  hence after every job of such a type when the types are pairwise distinct; a
  dependency naming a type for which no job exists imposes no constraint.
\<close>

theorem resolveDependencies_topological:
  assumes "distinct (map jid js)" and "acyclic (dependencyEdges js)"
  shows "mset (resolveDependencies js) = mset js
       \<and> (\<forall>job\<in>set js. \<forall>t\<in>set (dependencies job). \<forall>d.
             find (\<lambda>j. jtype j = t) js = Some d
             \<longrightarrow> appearsBefore d job (resolveDependencies js))
       \<and> (distinct (map jtype js) \<longrightarrow>
            (\<forall>job\<in>set js. \<forall>d\<in>set js. jtype d \<in> set (dependencies job)
               \<longrightarrow> appearsBefore d job (resolveDependencies js)))"
proof -
  let ?r = "resolveDependencies js"
  from assms(2) have acyc: "acyclic (findEdges js)"
    using findEdges_subset [of js] by (rule acyclic_subset)
  from resolveDependencies_inv [OF assms(1) acyc]
  have set: "set ?r = set js" and did: "distinct (map jid ?r)" and pl: "depsPlaced js ?r"
    by simp_all
  from did have dr: "distinct ?r" by (simp add: distinct_map)
  from assms(1) have dj: "distinct js" by (simp add: distinct_map)
  from set dr dj have m: "mset ?r = mset js" by (simp add: set_eq_iff_mset_eq_distinct)
  have before: "appearsBefore d job ?r"
    if job: "job \<in> set js" and t: "t \<in> set (dependencies job)"
      and d: "find (\<lambda>j. jtype j = t) js = Some d" for job t d
  proof -
    from job set obtain i where i: "i < length ?r" "?r ! i = job"
      by (metis in_set_conv_nth)
    with pl t d have "d \<in> set (take i ?r)" by (auto simp: depsPlaced_def)
    moreover have "takeWhile (\<lambda>x. x \<noteq> job) ?r = take i ?r"
      using takeWhile_neq_nth [OF dr i(1)] i(2) by simp
    ultimately show ?thesis using job set by (simp add: appearsBefore_def)
  qed
  have before': "appearsBefore d job ?r"
    if "distinct (map jtype js)" "job \<in> set js" "d \<in> set js" "jtype d \<in> set (dependencies job)"
    for job d
    using before [OF that(2,4) find_distinct_type [OF that(1,3)]] .
  from m before before' show ?thesis by blast
qed

text \<open>The contrast job, first in the input, depends on the type of the structure job
  and comes out after it.\<close>

theorem resolveDependencies_topological_witness:
  "mset (resolveDependencies [contrastJob 0, structureJob 1]) = mset [contrastJob 0, structureJob 1]
   \<and> appearsBefore (structureJob 1) (contrastJob 0)
        (resolveDependencies [contrastJob 0, structureJob 1])"
proof -
  let ?js = "[contrastJob 0, structureJob 1]"
  have d: "distinct (map jid ?js)" by (simp add: example_jobs_simps)
  have a: "acyclic (dependencyEdges ?js)"
    by (rule acyclic_by_rank, rule example_edges_rank [of ?js]) simp_all
  note t = resolveDependencies_topological [OF d a]
  from t have m: "mset (resolveDependencies ?js) = mset ?js" by (rule conjunct1)
  from t have all: "\<forall>job\<in>set ?js. \<forall>t\<in>set (dependencies job). \<forall>d.
             find (\<lambda>j. jtype j = t) ?js = Some d
             \<longrightarrow> appearsBefore d job (resolveDependencies ?js)"
    by blast
  have j: "contrastJob 0 \<in> set ?js" by simp
  have tt: "''1.3.1'' \<in> set (dependencies (contrastJob 0))" by (simp add: example_jobs_simps)
  have f: "find (\<lambda>j. jtype j = ''1.3.1'') ?js = Some (structureJob 1)"
    by (simp add: example_jobs_simps)
  from all j tt f have "appearsBefore (structureJob 1) (contrastJob 0) (resolveDependencies ?js)"
    by blast
  with m show ?thesis by simp
qed

lemma not_before_three:
  "appearsBefore (structureJob 2) (contrastJob 0)
     (resolveDependencies [contrastJob 0, structureJob 1, structureJob 2]) = False"
  by code_simp

text \<open>
  C3. The claim: for an acyclic dependency graph \<^verbatim>\<open>resolveDependencies\<close> returns exactly
  the input jobs with every job after every job of a type it depends on. The code: on
  three jobs with distinct ids, a contrast job (\<^verbatim>\<open>1.4.3\<close>) that depends on \<^verbatim>\<open>1.3.1\<close>
  followed by two structure jobs of type \<^verbatim>\<open>1.3.1\<close>, the graph is acyclic and the output
  is the jobs 1, 0, 2: the contrast job is placed before the second structure job,
  because \<^verbatim>\<open>jobs.find\<close> returns only the first job of the type. Jobs that carry
  dependencies come from ungrouped issues, where several jobs have the same type.
\<close>

theorem resolveDependencies_duplicate_type_counterexample:
  "distinct (map jid [contrastJob 0, structureJob 1, structureJob 2])
   \<and> acyclic (dependencyEdges [contrastJob 0, structureJob 1, structureJob 2])
   \<and> jtype (structureJob 2) \<in> set (dependencies (contrastJob 0))
   \<and> map jid (resolveDependencies [contrastJob 0, structureJob 1, structureJob 2]) = [1, 0, 2]
   \<and> \<not> appearsBefore (structureJob 2) (contrastJob 0)
        (resolveDependencies [contrastJob 0, structureJob 1, structureJob 2])"
proof -
  let ?js = "[contrastJob 0, structureJob 1, structureJob 2]"
  have d: "distinct (map jid ?js)" by (simp add: example_jobs_simps)
  have a: "acyclic (dependencyEdges ?js)"
    by (rule acyclic_by_rank, rule example_edges_rank [of ?js]) simp_all
  have t: "jtype (structureJob 2) \<in> set (dependencies (contrastJob 0))"
    by (simp add: example_jobs_simps)
  have o: "map jid (resolveDependencies ?js) = [1, 0, 2]"
    by (simp only: resolve_three) (simp add: example_jobs_simps)
  from d a t o not_before_three show ?thesis by simp
qed

end
